theory Spec2Isabelle
  imports Complex_Main "HOL-Library.Word"
begin

unbundle bit_operations_syntax

section \<open>Counting Bloom filter: the data model of bloom.go\<close>

text \<open>
  The counter array is a Go slice of \<open>uint8\<close>: a list of 8-bit words, on which \<open>+\<close> and
  \<open>-\<close> wrap around as Go's \<open>++\<close> and \<open>--\<close> do. Go's \<open>int\<close> fields (\<open>size\<close>,
  \<open>currentIndex\<close>) are integers; the conversion \<open>uint64(cbf.size)\<close> is \<open>word_of_int\<close>,
  which reduces modulo \<open>2 ^ 64\<close>. A \<open>time.Time\<close> is an integer count of nanoseconds and
  a \<open>time.Duration\<close> likewise. A Go string is its sequence of bytes, here a \<open>string\<close>.
  A run-time panic is a value of type \<open>panic\<close>; every operation returns
  \<open>panic + result\<close>.
\<close>

type_synonym uint8 = "8 word"
type_synonym uint64 = "64 word"

datatype panic =
    DivideByZero
  | IndexOutOfRange
  | MakesliceLenOutOfRange
  | NonPositiveTickerInterval

definition K :: nat where
  "K = 12"

definition DefaultBitSize :: int where
  "DefaultBitSize = 1 * 1024 * 1024"

definition DefaultCleanIntervalTime :: int where
  "DefaultCleanIntervalTime = 60 * 1000000000"

text \<open>The expiry strategies are untyped integer constants in the source (options.go).\<close>

definition NO_EXPIRATION :: int where "NO_EXPIRATION = 0"
definition LAZY_EXPIRATION :: int where "LAZY_EXPIRATION = 1"
definition RESET_EVERY_PERIOD :: int where "RESET_EVERY_PERIOD = 2"
definition EXPIRY_DURATION :: int where "EXPIRY_DURATION = 3"

record Options =
  ExpiryStrategy :: int
  Duration :: int

record CountingBloomFilter =
  bitmap :: "uint8 list"
  size_cbf :: int
  options :: Options
  currentIndex :: int
  timestampMap :: "string \<rightharpoonup> int"

subsection \<open>Hashing\<close>

text \<open>
  \<open>fnv.New64a()\<close>, \<open>Write\<close> and \<open>Sum64\<close> of Go's standard library \<open>hash/fnv\<close>: starting
  from the offset basis, every byte is xor-ed into the state, which is then multiplied by the
  64-bit FNV prime, in \<open>uint64\<close> arithmetic.
\<close>

definition offset64 :: uint64 where
  "offset64 = 14695981039346656037"

definition prime64 :: uint64 where
  "prime64 = 1099511628211"

fun fnv64a_write :: "uint64 \<Rightarrow> string \<Rightarrow> uint64" where
  "fnv64a_write h [] = h"
| "fnv64a_write h (c # cs) = fnv64a_write ((h XOR of_char c) * prime64) cs"

definition hash :: "string \<Rightarrow> nat \<Rightarrow> uint64" where
  "hash input seed = fnv64a_write offset64 input + of_nat seed"

text \<open>
  The expression \<open>hash(item, i) % uint64(cbf.size)\<close> followed by the slice access
  \<open>cbf.bitmap[hashValue]\<close>: the remainder panics on a zero divisor and the access panics
  outside the slice. The result is the position that is read or written.
\<close>

definition slot :: "CountingBloomFilter \<Rightarrow> string \<Rightarrow> nat \<Rightarrow> panic + nat" where
  "slot cbf item i =
     (let m = (word_of_int (size_cbf cbf) :: uint64) in
      if m = 0 then Inl DivideByZero
      else let hashValue = unat (hash item i mod m) in
        if hashValue < length (bitmap cbf) then Inr hashValue else Inl IndexOutOfRange)"

subsection \<open>Construction\<close>

text \<open>
  \<open>make([]uint8, size)\<close> panics when \<open>size\<close> is negative and when the slice would be
  larger than the run time's allocation limit \<open>maxAlloc\<close>, which is \<open>2 ^ 48\<close> bytes on
  the 64-bit platforms with 48 address bits (linux/amd64). For a strategy other than
  \<open>NO_EXPIRATION\<close> the constructor then calls \<open>time.NewTicker(cbf.options.Duration)\<close>,
  which panics when the duration is not positive. The background goroutine that the
  constructor starts is modelled by \<open>tick\<close> below.
\<close>

definition maxAlloc :: int where
  "maxAlloc = 2 ^ 48"

definition newCountingBloomFilter :: "int \<Rightarrow> Options option \<Rightarrow> panic + CountingBloomFilter" where
  "newCountingBloomFilter sz opts =
     (let opts' = (case opts of
                     None \<Rightarrow> \<lparr>ExpiryStrategy = NO_EXPIRATION, Duration = DefaultCleanIntervalTime\<rparr>
                   | Some p \<Rightarrow> p)
      in if sz < 0 \<or> maxAlloc < sz then Inl MakesliceLenOutOfRange
         else if ExpiryStrategy opts' \<noteq> NO_EXPIRATION \<and> Duration opts' \<le> 0
         then Inl NonPositiveTickerInterval
         else Inr \<lparr>bitmap = replicate (nat sz) 0, size_cbf = sz, options = opts',
                   currentIndex = 0, timestampMap = Map.empty\<rparr>)"

definition loadOptions :: "(Options \<Rightarrow> Options) list \<Rightarrow> Options" where
  "loadOptions os = fold (\<lambda>option opts. option opts) os \<lparr>ExpiryStrategy = 0, Duration = 0\<rparr>"

definition WithOptions :: "Options \<Rightarrow> Options \<Rightarrow> Options" where
  "WithOptions options' opts = options'"

definition WithExpiryDuration :: "int \<Rightarrow> int \<Rightarrow> Options \<Rightarrow> Options" where
  "WithExpiryDuration expiryStrategy expiryDuration opts =
     opts\<lparr>ExpiryStrategy := expiryStrategy, Duration := expiryDuration\<rparr>"

definition NewCountingBloomFilter :: "int \<Rightarrow> (Options \<Rightarrow> Options) list \<Rightarrow> panic + CountingBloomFilter" where
  "NewCountingBloomFilter sz os =
     (let opts = loadOptions os;
          opts' = (if Duration opts \<le> 0 then opts\<lparr>Duration := DefaultCleanIntervalTime\<rparr> else opts)
      in newCountingBloomFilter sz (Some opts'))"

definition NewDefaultCountingBloomFilter :: "panic + CountingBloomFilter" where
  "NewDefaultCountingBloomFilter = newCountingBloomFilter DefaultBitSize None"

subsection \<open>Add, Check, Remove, RemoveAll\<close>

text \<open>The loop of \<open>Add\<close> over the trials that remain; \<open>++\<close> on a \<open>uint8\<close> wraps.\<close>

fun Add_loop :: "string \<Rightarrow> nat list \<Rightarrow> CountingBloomFilter \<Rightarrow> panic + CountingBloomFilter" where
  "Add_loop item [] cbf = Inr cbf"
| "Add_loop item (i # trials) cbf =
     (case slot cbf item i of
        Inl e \<Rightarrow> Inl e
      | Inr hashValue \<Rightarrow>
          Add_loop item trials (cbf\<lparr>bitmap := (bitmap cbf)[hashValue := bitmap cbf ! hashValue + 1]\<rparr>))"

definition Add :: "int \<Rightarrow> string \<Rightarrow> CountingBloomFilter \<Rightarrow> panic + CountingBloomFilter" where
  "Add now item cbf =
     (case Add_loop item [0..<K] cbf of
        Inl e \<Rightarrow> Inl e
      | Inr cbf' \<Rightarrow>
          if ExpiryStrategy (options cbf') = EXPIRY_DURATION
          then Inr (cbf'\<lparr>timestampMap := (timestampMap cbf')(item \<mapsto> now)\<rparr>)
          else Inr cbf')"

text \<open>The loop of \<open>Remove\<close>: a counter is decremented only when it is positive.\<close>

fun Remove_loop :: "string \<Rightarrow> nat list \<Rightarrow> CountingBloomFilter \<Rightarrow> panic + CountingBloomFilter" where
  "Remove_loop item [] cbf = Inr cbf"
| "Remove_loop item (i # trials) cbf =
     (case slot cbf item i of
        Inl e \<Rightarrow> Inl e
      | Inr hashValue \<Rightarrow>
          Remove_loop item trials
            (if bitmap cbf ! hashValue > 0
             then cbf\<lparr>bitmap := (bitmap cbf)[hashValue := bitmap cbf ! hashValue - 1]\<rparr>
             else cbf))"

definition Remove :: "string \<Rightarrow> CountingBloomFilter \<Rightarrow> panic + CountingBloomFilter" where
  "Remove item cbf =
     (case Remove_loop item [0..<K] cbf of
        Inl e \<Rightarrow> Inl e
      | Inr cbf' \<Rightarrow> Inr (cbf'\<lparr>timestampMap := (timestampMap cbf')(item := None)\<rparr>))"

text \<open>
  \<open>Check\<close> has two critical sections. The first, under the read lock, scans the counters
  and reads the timestamp; its outcome says how \<open>Check\<close> goes on. On \<open>Expired\<close> the read
  lock is released and \<open>Remove\<close> takes the write lock: the second critical section.
\<close>

datatype check_outcome = Absent | Present | Expired

fun Check_loop :: "string \<Rightarrow> nat list \<Rightarrow> CountingBloomFilter \<Rightarrow> panic + bool" where
  "Check_loop item [] cbf = Inr True"
| "Check_loop item (i # trials) cbf =
     (case slot cbf item i of
        Inl e \<Rightarrow> Inl e
      | Inr hashValue \<Rightarrow>
          if bitmap cbf ! hashValue = 0 then Inr False else Check_loop item trials cbf)"

definition Check_read :: "int \<Rightarrow> string \<Rightarrow> CountingBloomFilter \<Rightarrow> panic + check_outcome" where
  "Check_read now item cbf =
     (case Check_loop item [0..<K] cbf of
        Inl e \<Rightarrow> Inl e
      | Inr False \<Rightarrow> Inr Absent
      | Inr True \<Rightarrow>
          if ExpiryStrategy (options cbf) = EXPIRY_DURATION
          then (case timestampMap cbf item of
                  Some timestamp \<Rightarrow>
                    if now - timestamp > Duration (options cbf) then Inr Expired else Inr Present
                | None \<Rightarrow> Inr Present)
          else Inr Present)"

definition Check :: "int \<Rightarrow> string \<Rightarrow> CountingBloomFilter \<Rightarrow> panic + (bool \<times> CountingBloomFilter)" where
  "Check now item cbf =
     (case Check_read now item cbf of
        Inl e \<Rightarrow> Inl e
      | Inr Absent \<Rightarrow> Inr (False, cbf)
      | Inr Present \<Rightarrow> Inr (True, cbf)
      | Inr Expired \<Rightarrow>
          (case Remove item cbf of
             Inl e \<Rightarrow> Inl e
           | Inr cbf' \<Rightarrow> Inr (False, cbf')))"

fun RemoveAll_loop :: "nat list \<Rightarrow> CountingBloomFilter \<Rightarrow> panic + CountingBloomFilter" where
  "RemoveAll_loop [] cbf = Inr cbf"
| "RemoveAll_loop (i # rest) cbf =
     (if i < length (bitmap cbf)
      then RemoveAll_loop rest (cbf\<lparr>bitmap := (bitmap cbf)[i := 0]\<rparr>)
      else Inl IndexOutOfRange)"

definition RemoveAll :: "CountingBloomFilter \<Rightarrow> panic + CountingBloomFilter" where
  "RemoveAll cbf =
     (case RemoveAll_loop [0..<nat (size_cbf cbf)] cbf of
        Inl e \<Rightarrow> Inl e
      | Inr cbf' \<Rightarrow> Inr (cbf'\<lparr>timestampMap := Map.empty\<rparr>))"

subsection \<open>The background loops\<close>

text \<open>
  One timer tick of \<open>cleanupWithLazy\<close>. The batch size is
  \<open>int(math.Ceil(float64(cbf.size) * DefaultBatchRate))\<close>; the floating-point product is
  not modelled: its value is the parameter \<open>ceil_batch\<close>, and every statement below holds
  for all its values. The recursion is over the iterations that remain of \<open>batchSize\<close>.
\<close>

fun cleanupWithLazy_loop :: "nat \<Rightarrow> int \<Rightarrow> CountingBloomFilter \<Rightarrow> panic + (int \<times> CountingBloomFilter)" where
  "cleanupWithLazy_loop 0 startIndex cbf = Inr (startIndex, cbf)"
| "cleanupWithLazy_loop (Suc n) startIndex cbf =
     (if startIndex < size_cbf cbf
      then (if 0 \<le> startIndex \<and> nat startIndex < length (bitmap cbf)
            then cleanupWithLazy_loop n (startIndex + 1)
                   (if bitmap cbf ! nat startIndex > 0
                    then cbf\<lparr>bitmap := (bitmap cbf)[nat startIndex := bitmap cbf ! nat startIndex - 1]\<rparr>
                    else cbf)
            else Inl IndexOutOfRange)
      else Inr (startIndex, cbf))"

definition cleanupWithLazy_tick :: "int \<Rightarrow> CountingBloomFilter \<Rightarrow> panic + CountingBloomFilter" where
  "cleanupWithLazy_tick ceil_batch cbf =
     (let batchSize = (if ceil_batch < 1 then 1000 else ceil_batch) in
      case cleanupWithLazy_loop (nat batchSize) (currentIndex cbf) cbf of
        Inl e \<Rightarrow> Inl e
      | Inr (startIndex, cbf') \<Rightarrow>
          (let cbf'' = cbf'\<lparr>currentIndex := startIndex\<rparr> in
           Inr (if currentIndex cbf'' \<ge> size_cbf cbf'' then cbf''\<lparr>currentIndex := 0\<rparr> else cbf'')))"

text \<open>One timer tick of \<open>cleanupWithReset\<close>.\<close>

definition cleanupWithReset_tick :: "CountingBloomFilter \<Rightarrow> panic + CountingBloomFilter" where
  "cleanupWithReset_tick cbf = RemoveAll cbf"

text \<open>
  One timer tick of \<open>cleanupWithExpiry\<close>. The \<open>range\<close> over the timestamp map yields
  its keys in an order the run time chooses: the parameter \<open>order\<close>, of which the keys
  present in the map are visited, each once. \<open>clock i\<close> is the time that \<open>Check\<close> reads
  in iteration \<open>i\<close>. The sweep returns \<open>evictedCount\<close> with the filter.
\<close>

definition totalCount :: nat where
  "totalCount = 20"

fun cleanupWithExpiry_sweep ::
  "(nat \<Rightarrow> int) \<Rightarrow> string list \<Rightarrow> nat \<Rightarrow> nat \<Rightarrow> CountingBloomFilter \<Rightarrow> panic + (nat \<times> CountingBloomFilter)" where
  "cleanupWithExpiry_sweep clock [] i evictedCount cbf = Inr (evictedCount, cbf)"
| "cleanupWithExpiry_sweep clock (key # keys) i evictedCount cbf =
     (case (if key \<noteq> [] then Check (clock i) key cbf else Inr (False, cbf)) of
        Inl e \<Rightarrow> Inl e
      | Inr (found, cbf1) \<Rightarrow>
          (case (if found
                 then (case slot cbf1 key 0 of
                         Inl e \<Rightarrow> Inl e
                       | Inr h \<Rightarrow>
                           if bitmap cbf1 ! h > 0
                           then (case Remove key cbf1 of
                                   Inl e \<Rightarrow> Inl e
                                 | Inr cbf2 \<Rightarrow> Inr (evictedCount + 1, cbf2))
                           else Inr (evictedCount, cbf1))
                 else Inr (evictedCount, cbf1)) of
             Inl e \<Rightarrow> Inl e
           | Inr (evictedCount', cbf3) \<Rightarrow>
               if i + 1 \<ge> totalCount then Inr (evictedCount', cbf3)
               else cleanupWithExpiry_sweep clock keys (i + 1) evictedCount' cbf3))"

definition cleanupWithExpiry_pass ::
  "(nat \<Rightarrow> int) \<Rightarrow> string list \<Rightarrow> CountingBloomFilter \<Rightarrow> panic + (nat \<times> CountingBloomFilter)" where
  "cleanupWithExpiry_pass clock order cbf =
     cleanupWithExpiry_sweep clock
       (filter (\<lambda>key. timestampMap cbf key \<noteq> None) (remdups order)) 0 0 cbf"

text \<open>
  The loop \<open>for { select { case <-cbf.expiryTicker.C: ... } }\<close> of \<open>cleanupWithExpiry\<close>,
  run on the ticks that the timer delivers, each with its clock and iteration order. It
  returns the number of passes made with the filter. After a pass, \<open>continue\<close> starts the
  next iteration of the \<open>for\<close> loop, whose \<open>select\<close> receives the next tick; so does
  reaching the end of the loop body. With no tick left the goroutine is blocked in
  \<open>select\<close>.
\<close>

fun cleanupWithExpiry ::
  "((nat \<Rightarrow> int) \<times> string list) list \<Rightarrow> nat \<Rightarrow> CountingBloomFilter \<Rightarrow> panic + (nat \<times> CountingBloomFilter)" where
  "cleanupWithExpiry [] passes cbf = Inr (passes, cbf)"
| "cleanupWithExpiry ((clock, order) # ticks) passes cbf =
     (case cleanupWithExpiry_pass clock order cbf of
        Inl e \<Rightarrow> Inl e
      | Inr (evictedCount, cbf') \<Rightarrow>
          if real evictedCount / real totalCount > 0.25
          then cleanupWithExpiry ticks (passes + 1) cbf'
          else cleanupWithExpiry ticks (passes + 1) cbf')"

text \<open>
  One timer tick of the goroutine that \<open>newCountingBloomFilter\<close> starts for the configured
  strategy: none for \<open>NO_EXPIRATION\<close>, and the timestamp sweep for every value other than
  the three named before it.
\<close>

definition tick :: "int \<Rightarrow> (nat \<Rightarrow> int) \<Rightarrow> string list \<Rightarrow> CountingBloomFilter \<Rightarrow> panic + CountingBloomFilter" where
  "tick ceil_batch clock order cbf =
     (if ExpiryStrategy (options cbf) \<noteq> NO_EXPIRATION
      then (if ExpiryStrategy (options cbf) = LAZY_EXPIRATION then cleanupWithLazy_tick ceil_batch cbf
            else if ExpiryStrategy (options cbf) = RESET_EVERY_PERIOD then cleanupWithReset_tick cbf
            else (case cleanupWithExpiry [(clock, order)] 0 cbf of
                    Inl e \<Rightarrow> Inl e
                  | Inr (passes, cbf') \<Rightarrow> Inr cbf'))
      else Inr cbf)"

subsection \<open>Sequences of operations\<close>

datatype operation =
    OpAdd int string
  | OpCheck int string
  | OpRemove string
  | OpRemoveAll
  | OpTick int "nat \<Rightarrow> int" "string list"

fun apply_operation :: "operation \<Rightarrow> CountingBloomFilter \<Rightarrow> panic + CountingBloomFilter" where
  "apply_operation (OpAdd now item) cbf = Add now item cbf"
| "apply_operation (OpCheck now item) cbf =
     (case Check now item cbf of Inl e \<Rightarrow> Inl e | Inr (found, cbf') \<Rightarrow> Inr cbf')"
| "apply_operation (OpRemove item) cbf = Remove item cbf"
| "apply_operation OpRemoveAll cbf = RemoveAll cbf"
| "apply_operation (OpTick ceil_batch clock order) cbf = tick ceil_batch clock order cbf"

fun run :: "operation list \<Rightarrow> CountingBloomFilter \<Rightarrow> panic + CountingBloomFilter" where
  "run [] cbf = Inr cbf"
| "run (operation # rest) cbf =
     (case apply_operation operation cbf of Inl e \<Rightarrow> Inl e | Inr cbf' \<Rightarrow> run rest cbf')"

text \<open>
  \<open>Check\<close> when other goroutines run: between the \<open>RUnlock\<close> of its first critical
  section and the \<open>Lock\<close> that \<open>Remove\<close> takes, the operations \<open>window\<close> of other
  goroutines acquire the lock. With an empty window this is \<open>Check\<close>.
\<close>

definition Check_concurrent ::
  "int \<Rightarrow> string \<Rightarrow> operation list \<Rightarrow> CountingBloomFilter \<Rightarrow> panic + (bool \<times> CountingBloomFilter)" where
  "Check_concurrent now item window cbf =
     (case Check_read now item cbf of
        Inl e \<Rightarrow> Inl e
      | Inr Absent \<Rightarrow> Inr (False, cbf)
      | Inr Present \<Rightarrow> Inr (True, cbf)
      | Inr Expired \<Rightarrow>
          (case run window cbf of
             Inl e \<Rightarrow> Inl e
           | Inr cbf1 \<Rightarrow>
               (case Remove item cbf1 of
                  Inl e \<Rightarrow> Inl e
                | Inr cbf' \<Rightarrow> Inr (False, cbf'))))"

subsection \<open>Well-formed filters\<close>

text \<open>
  What \<open>newCountingBloomFilter\<close> establishes when it returns a filter for a positive
  \<open>size\<close>, which then fits Go's 64-bit \<open>int\<close>, and every operation keeps: the slice has
  \<open>size\<close> counters and the sweep cursor lies inside it.
\<close>

definition wellformed :: "CountingBloomFilter \<Rightarrow> bool" where
  "wellformed cbf \<longleftrightarrow>
     0 < size_cbf cbf \<and> size_cbf cbf < 2 ^ 63 \<and> length (bitmap cbf) = nat (size_cbf cbf) \<and>
     0 \<le> currentIndex cbf \<and> currentIndex cbf < size_cbf cbf"

subsection \<open>The hash scheme as the specification words it\<close>

text \<open>
  FNV-1a on natural numbers, with the reduction modulo \<open>2 ^ 64\<close> written out, and the
  position of a key for a trial: the hash plus the trial, modulo \<open>2 ^ 64\<close>, modulo the
  size.
\<close>

fun fnv1a_spec :: "nat \<Rightarrow> nat list \<Rightarrow> nat" where
  "fnv1a_spec h [] = h"
| "fnv1a_spec h (b # bs) = fnv1a_spec (((h XOR b) * 1099511628211) mod 2 ^ 64) bs"

definition index_spec :: "string \<Rightarrow> nat \<Rightarrow> nat \<Rightarrow> nat" where
  "index_spec key trial sz =
     ((fnv1a_spec 14695981039346656037 (map of_char key) + trial) mod 2 ^ 64) mod sz"

text \<open>Two filters that differ in their counters only, the slice keeping its length.\<close>

definition same_frame :: "CountingBloomFilter \<Rightarrow> CountingBloomFilter \<Rightarrow> bool" where
  "same_frame cbf cbf' \<longleftrightarrow>
     size_cbf cbf' = size_cbf cbf \<and> length (bitmap cbf') = length (bitmap cbf) \<and>
     options cbf' = options cbf \<and> currentIndex cbf' = currentIndex cbf \<and>
     timestampMap cbf' = timestampMap cbf"

subsection \<open>Scenarios\<close>

text \<open>
  Calls in sequence: a panic ends the sequence. \<open>found\<close> is the boolean that \<open>Check\<close>
  returns and \<open>after\<close> the filter it leaves; \<open>timestamp_of\<close> looks a key up in the
  timestamp map.
\<close>

definition and_then :: "panic + 'a \<Rightarrow> ('a \<Rightarrow> panic + 'b) \<Rightarrow> panic + 'b" where
  "and_then r f = (case r of Inl e \<Rightarrow> Inl e | Inr x \<Rightarrow> f x)"

definition found :: "panic + (bool \<times> CountingBloomFilter) \<Rightarrow> panic + bool" where
  "found r = map_sum id fst r"

definition after :: "panic + ('a \<times> CountingBloomFilter) \<Rightarrow> panic + CountingBloomFilter" where
  "after r = map_sum id snd r"

definition counters :: "panic + CountingBloomFilter \<Rightarrow> panic + uint8 list" where
  "counters r = map_sum id bitmap r"

definition timestamp_of :: "string \<Rightarrow> panic + CountingBloomFilter \<Rightarrow> panic + int option" where
  "timestamp_of key r = map_sum id (\<lambda>cbf. timestampMap cbf key) r"

text \<open>
  A filter of size 1, as \<open>NewCountingBloomFilter(1, WithExpiryDuration(strategy, 1000))\<close>
  builds it, with its one counter at \<open>c\<close> and the timestamps \<open>ts\<close>. Every key and
  every trial address counter 0 there, so one \<open>Add\<close> raises it by \<open>K\<close>.
\<close>

definition single_counter_filter :: "uint8 \<Rightarrow> int \<Rightarrow> (string \<rightharpoonup> int) \<Rightarrow> CountingBloomFilter" where
  "single_counter_filter c strategy ts =
     \<lparr>bitmap = [c], size_cbf = 1, options = \<lparr>ExpiryStrategy = strategy, Duration = 1000\<rparr>,
      currentIndex = 0, timestampMap = ts\<rparr>"

text \<open>
  The state in which the timestamp map is not in use: a well-formed filter whose strategy is
  not \<open>EXPIRY_DURATION\<close> and whose timestamp map is empty.
\<close>

definition idle_timestamps :: "CountingBloomFilter \<Rightarrow> bool" where
  "idle_timestamps cbf \<longleftrightarrow>
     wellformed cbf \<and> ExpiryStrategy (options cbf) \<noteq> EXPIRY_DURATION \<and>
     timestampMap cbf = Map.empty"

text \<open>
  A clock that stands still during a sweep, the counts that the sweep and the loop return,
  and a view of a filter: its counters and the timestamp of one key.
\<close>

definition steady_clock :: "int \<Rightarrow> nat \<Rightarrow> int" where
  "steady_clock t i = t"

definition count_of :: "panic + (nat \<times> CountingBloomFilter) \<Rightarrow> panic + nat" where
  "count_of r = map_sum id fst r"

definition snapshot ::
  "string \<Rightarrow> panic + CountingBloomFilter \<Rightarrow> panic + (uint8 list \<times> int option)" where
  "snapshot key r = map_sum id (\<lambda>cbf. (bitmap cbf, timestampMap cbf key)) r"

text \<open>
  Twenty-one keys added at time 0 to a filter of size 1 with the time-based policy and a
  duration of 1000, and one key added at time 0 to such a filter.
\<close>

definition sweep_keys :: "string list" where
  "sweep_keys = [''a'', ''b'', ''c'', ''d'', ''e'', ''f'', ''g'', ''h'', ''i'', ''j'', ''k'',
             ''l'', ''m'', ''n'', ''o'', ''p'', ''q'', ''r'', ''s'', ''t'', ''u'']"

definition sweep_filter :: "panic + CountingBloomFilter" where
  "sweep_filter = and_then (NewCountingBloomFilter 1 [WithExpiryDuration EXPIRY_DURATION 1000])
                (run (map (OpAdd 0) sweep_keys))"

definition stale_filter :: "panic + CountingBloomFilter" where
  "stale_filter = and_then (NewCountingBloomFilter 1 [WithExpiryDuration EXPIRY_DURATION 1000])
                (Add 0 ''a'')"

section \<open>Properties\<close>

subsection \<open>Auxiliary facts\<close>

lemma word_of_int_size_neq_0:
  assumes "0 < n" "n < 2 ^ 63"
  shows "(word_of_int n :: uint64) \<noteq> 0"
proof -
  have "\<not> (2 ^ 64 dvd n)"
  proof
    assume "(2::int) ^ 64 dvd n"
    then have "(2::int) ^ 64 \<le> n" using assms(1) by (rule zdvd_imp_le)
    with assms(2) show False by simp
  qed
  then show ?thesis by (simp add: word_of_int_eq_0_iff)
qed

lemma unat_word_of_int_size:
  "0 < n \<Longrightarrow> n < 2 ^ 63 \<Longrightarrow> unat (word_of_int n :: uint64) = nat n"
  by (simp add: unsigned_of_int take_bit_int_eq_self)

lemma unat_of_char64: "unat (of_char c :: uint64) = (of_char c :: nat)"
proof -
  have "unat (of_char c :: uint64) = unat (of_nat (of_char c) :: uint64)"
    by (simp only: of_nat_of_char)
  also have "\<dots> = (of_char c :: nat) mod 2 ^ 64"
    by (simp only: unat_of_nat) simp
  also have "\<dots> = (of_char c :: nat)"
  proof -
    have "(of_char c :: nat) < 256" by (rule nat_of_char_less_256)
    then have "(of_char c :: nat) < 2 ^ 64" by (rule less_trans) simp
    then show ?thesis by (rule mod_less)
  qed
  finally show ?thesis .
qed

lemma fnv64a_write_refines:
  "unat (fnv64a_write h cs) = fnv1a_spec (unat h) (map of_char cs)"
proof (induction cs arbitrary: h)
  case Nil
  show ?case by simp
next
  case (Cons c cs)
  have "unat ((h XOR of_char c) * prime64) = ((unat h XOR of_char c) * 1099511628211) mod 2 ^ 64"
    by (simp add: unat_word_ariths unsigned_xor_eq unat_of_char64 prime64_def)
  with Cons show ?case by simp
qed

lemma unat_hash:
  "unat (hash key trial) = (fnv1a_spec 14695981039346656037 (map of_char key) + trial) mod 2 ^ 64"
  by (simp add: hash_def unat_word_ariths fnv64a_write_refines offset64_def unat_of_nat mod_simps)

lemma slot_in_range:
  assumes "0 < size_cbf cbf" "size_cbf cbf < 2 ^ 63" "length (bitmap cbf) = nat (size_cbf cbf)"
  shows "slot cbf item i = Inr (unat (hash item i) mod nat (size_cbf cbf))"
proof -
  have nz: "(word_of_int (size_cbf cbf) :: uint64) \<noteq> 0"
    using assms(1,2) by (rule word_of_int_size_neq_0)
  have m: "unat (hash item i mod (word_of_int (size_cbf cbf) :: uint64))
            = unat (hash item i) mod nat (size_cbf cbf)"
    using assms(1,2) by (simp add: unat_mod_distrib unat_word_of_int_size)
  have "unat (hash item i) mod nat (size_cbf cbf) < nat (size_cbf cbf)"
    using assms(1) by simp
  with nz m assms(3) show ?thesis by (simp add: slot_def Let_def)
qed

lemma slot_wellformed:
  "wellformed cbf \<Longrightarrow> slot cbf item i = Inr (unat (hash item i) mod nat (size_cbf cbf))"
  by (rule slot_in_range) (simp_all add: wellformed_def)

lemma slot_bound:
  "slot cbf item i = Inr h \<Longrightarrow> h < length (bitmap cbf)"
  by (auto simp: slot_def Let_def split: if_splits)

lemma slot_same_frame:
  "same_frame cbf cbf' \<Longrightarrow> slot cbf' item i = slot cbf item i"
  by (simp add: slot_def same_frame_def Let_def)

lemma wellformed_same_frame:
  "wellformed cbf \<Longrightarrow> same_frame cbf cbf' \<Longrightarrow> wellformed cbf'"
  by (simp add: wellformed_def same_frame_def)

lemma same_frame_refl: "same_frame cbf cbf"
  by (simp add: same_frame_def)

lemma same_frame_trans: "same_frame a b \<Longrightarrow> same_frame b c \<Longrightarrow> same_frame a c"
  by (simp add: same_frame_def)

lemma same_frame_bitmap_update:
  "length b = length (bitmap cbf) \<Longrightarrow> same_frame cbf (cbf\<lparr>bitmap := b\<rparr>)"
  by (simp add: same_frame_def)

lemma Add_loop_total:
  "wellformed cbf \<Longrightarrow> \<exists>cbf'. Add_loop item trials cbf = Inr cbf' \<and> same_frame cbf cbf'"
proof (induction trials arbitrary: cbf)
  case Nil
  show ?case by (simp add: same_frame_refl)
next
  case (Cons i trials)
  let ?h = "unat (hash item i) mod nat (size_cbf cbf)"
  let ?c = "cbf\<lparr>bitmap := (bitmap cbf)[?h := bitmap cbf ! ?h + 1]\<rparr>"
  have s: "slot cbf item i = Inr ?h" using Cons.prems by (rule slot_wellformed)
  have f: "same_frame cbf ?c" by (rule same_frame_bitmap_update) simp
  then have "wellformed ?c" using Cons.prems wellformed_same_frame by blast
  from Cons.IH [OF this] obtain cbf' where
    r: "Add_loop item trials ?c = Inr cbf'" and f': "same_frame ?c cbf'" by blast
  from f f' have "same_frame cbf cbf'" by (rule same_frame_trans)
  with s r show ?case by simp
qed

lemma Remove_loop_total:
  "wellformed cbf \<Longrightarrow>
     \<exists>cbf'. Remove_loop item trials cbf = Inr cbf' \<and> same_frame cbf cbf' \<and>
       (\<forall>j < length (bitmap cbf). unat (bitmap cbf' ! j) \<le> unat (bitmap cbf ! j))"
proof (induction trials arbitrary: cbf)
  case Nil
  show ?case by (simp add: same_frame_refl)
next
  case (Cons i trials)
  let ?h = "unat (hash item i) mod nat (size_cbf cbf)"
  let ?c = "if bitmap cbf ! ?h > 0
            then cbf\<lparr>bitmap := (bitmap cbf)[?h := bitmap cbf ! ?h - 1]\<rparr> else cbf"
  have s: "slot cbf item i = Inr ?h" using Cons.prems by (rule slot_wellformed)
  have f: "same_frame cbf ?c" by (simp add: same_frame_def)
  then have "wellformed ?c" using Cons.prems wellformed_same_frame by blast
  from Cons.IH [OF this] obtain cbf' where
    r: "Remove_loop item trials ?c = Inr cbf'" and f': "same_frame ?c cbf'"
    and d': "\<forall>j < length (bitmap ?c). unat (bitmap cbf' ! j) \<le> unat (bitmap ?c ! j)" by blast
  from f f' have ff: "same_frame cbf cbf'" by (rule same_frame_trans)
  have len: "length (bitmap ?c) = length (bitmap cbf)" by simp
  have step: "\<forall>j < length (bitmap cbf). unat (bitmap ?c ! j) \<le> unat (bitmap cbf ! j)"
  proof (intro allI impI)
    fix j assume j: "j < length (bitmap cbf)"
    show "unat (bitmap ?c ! j) \<le> unat (bitmap cbf ! j)"
    proof (cases "bitmap cbf ! ?h > 0")
      case False
      then show ?thesis by simp
    next
      case True
      then have "unat (bitmap cbf ! ?h - 1) \<le> unat (bitmap cbf ! ?h)"
        by (simp add: unat_minus_one word_gt_0)
      with True j show ?thesis by (cases "j = ?h") simp_all
    qed
  qed
  have "\<forall>j < length (bitmap cbf). unat (bitmap cbf' ! j) \<le> unat (bitmap cbf ! j)"
  proof (intro allI impI)
    fix j assume j: "j < length (bitmap cbf)"
    with d' len have "unat (bitmap cbf' ! j) \<le> unat (bitmap ?c ! j)" by simp
    also from step j have "\<dots> \<le> unat (bitmap cbf ! j)" by blast
    finally show "unat (bitmap cbf' ! j) \<le> unat (bitmap cbf ! j)" .
  qed
  with s r ff show ?case by simp
qed

lemma Check_loop_total:
  "wellformed cbf \<Longrightarrow> \<exists>b. Check_loop item trials cbf = Inr b"
proof (induction trials)
  case Nil
  show ?case by auto
next
  case (Cons i trials)
  then show ?case by (auto simp: slot_wellformed)
qed



lemma trials_K: "[0..<K] = [0, 1, 2, 3, 4, 5, 6, 7, 8, 9, 10, 11]"
  unfolding K_def by code_simp

lemma slot_index_spec:
  assumes "0 < size_cbf cbf" "size_cbf cbf < 2 ^ 63" "length (bitmap cbf) = nat (size_cbf cbf)"
  shows "slot cbf key trial = Inr (index_spec key trial (nat (size_cbf cbf)))"
  using assms by (simp add: slot_in_range unat_hash index_spec_def)

lemma Check_loop_characterised:
  "wellformed cbf \<Longrightarrow>
     Check_loop item trials cbf =
       Inr (\<forall>i \<in> set trials. bitmap cbf ! (unat (hash item i) mod nat (size_cbf cbf)) \<noteq> 0)"
  by (induction trials) (simp_all add: slot_wellformed)

lemma Check_read_not_Expired:
  "ExpiryStrategy (options cbf) \<noteq> EXPIRY_DURATION \<Longrightarrow> Check_read now item cbf \<noteq> Inr Expired"
  by (simp add: Check_read_def split: sum.splits bool.splits)

lemma Check_read_time_independent:
  "ExpiryStrategy (options cbf) \<noteq> EXPIRY_DURATION \<Longrightarrow>
     Check_read now item cbf = Check_read now' item cbf"
  by (simp add: Check_read_def split: sum.splits bool.splits)

lemma unat_decrement_le:
  fixes c :: uint8
  assumes "c > 0"
  shows "unat (c - 1) \<le> unat c"
  using assms by (simp add: unat_minus_one word_gt_0)

lemma unat_le_zero_preserved:
  fixes c c' :: uint8
  shows "unat c' \<le> unat c \<Longrightarrow> c = 0 \<Longrightarrow> c' = 0"
  by (simp add: unat_eq_zero)

lemma Remove_loop_zero_noop:
  assumes "wellformed cbf"
    and "\<forall>i \<in> set trials. bitmap cbf ! (unat (hash item i) mod nat (size_cbf cbf)) = 0"
  shows "Remove_loop item trials cbf = Inr cbf"
  using assms by (induction trials) (simp_all add: slot_wellformed)

lemma Remove_total:
  assumes "wellformed cbf"
  shows "\<exists>cbf'. Remove item cbf = Inr cbf' \<and> wellformed cbf' \<and>
           size_cbf cbf' = size_cbf cbf \<and> length (bitmap cbf') = length (bitmap cbf) \<and>
           options cbf' = options cbf \<and> currentIndex cbf' = currentIndex cbf \<and>
           timestampMap cbf' = (timestampMap cbf)(item := None) \<and>
           (\<forall>j < length (bitmap cbf). unat (bitmap cbf' ! j) \<le> unat (bitmap cbf ! j))"
proof -
  from Remove_loop_total [OF assms, of item "[0..<K]"] obtain c where
    r: "Remove_loop item [0..<K] cbf = Inr c" and f: "same_frame cbf c"
    and d: "\<forall>j < length (bitmap cbf). unat (bitmap c ! j) \<le> unat (bitmap cbf ! j)" by blast
  let ?c = "c\<lparr>timestampMap := (timestampMap c)(item := None)\<rparr>"
  have "Remove item cbf = Inr ?c" using r by (simp add: Remove_def)
  moreover have "wellformed ?c" using assms f by (simp add: wellformed_def same_frame_def)
  ultimately show ?thesis using f d by (simp add: same_frame_def)
qed

lemma Add_total:
  assumes "wellformed cbf"
  shows "\<exists>cbf'. Add now item cbf = Inr cbf' \<and> wellformed cbf' \<and>
           size_cbf cbf' = size_cbf cbf \<and> length (bitmap cbf') = length (bitmap cbf) \<and>
           options cbf' = options cbf \<and> currentIndex cbf' = currentIndex cbf \<and>
           timestampMap cbf' =
             (if ExpiryStrategy (options cbf) = EXPIRY_DURATION
              then (timestampMap cbf)(item \<mapsto> now) else timestampMap cbf)"
proof -
  from Add_loop_total [OF assms, of item "[0..<K]"] obtain c where
    r: "Add_loop item [0..<K] cbf = Inr c" and f: "same_frame cbf c" by blast
  have w: "wellformed c" using assms f by (rule wellformed_same_frame)
  show ?thesis
  proof (cases "ExpiryStrategy (options cbf) = EXPIRY_DURATION")
    case True
    let ?c = "c\<lparr>timestampMap := (timestampMap c)(item \<mapsto> now)\<rparr>"
    have "Add now item cbf = Inr ?c" using r f True by (simp add: Add_def same_frame_def)
    moreover have "wellformed ?c" using w by (simp add: wellformed_def)
    ultimately show ?thesis using f True by (simp add: same_frame_def)
  next
    case False
    have "Add now item cbf = Inr c" using r f False by (simp add: Add_def same_frame_def)
    then show ?thesis using w f False by (simp add: same_frame_def)
  qed
qed

lemma RemoveAll_loop_total:
  "\<forall>i \<in> set positions. i < length (bitmap cbf) \<Longrightarrow>
     \<exists>cbf'. RemoveAll_loop positions cbf = Inr cbf' \<and> same_frame cbf cbf' \<and>
       (\<forall>j < length (bitmap cbf).
          bitmap cbf' ! j = (if j \<in> set positions then 0 else bitmap cbf ! j))"
proof (induction positions arbitrary: cbf)
  case Nil
  show ?case by (simp add: same_frame_refl)
next
  case (Cons i positions)
  let ?c = "cbf\<lparr>bitmap := (bitmap cbf)[i := 0]\<rparr>"
  have i: "i < length (bitmap cbf)" using Cons.prems by simp
  have f: "same_frame cbf ?c" by (rule same_frame_bitmap_update) simp
  have "\<forall>k \<in> set positions. k < length (bitmap ?c)" using Cons.prems by simp
  from Cons.IH [OF this] obtain cbf' where
    r: "RemoveAll_loop positions ?c = Inr cbf'" and f': "same_frame ?c cbf'"
    and z: "\<forall>j < length (bitmap ?c).
              bitmap cbf' ! j = (if j \<in> set positions then 0 else bitmap ?c ! j)" by blast
  from f f' have "same_frame cbf cbf'" by (rule same_frame_trans)
  moreover have "RemoveAll_loop (i # positions) cbf = Inr cbf'" using i r by simp
  moreover have "\<forall>j < length (bitmap cbf).
      bitmap cbf' ! j = (if j \<in> set (i # positions) then 0 else bitmap cbf ! j)"
  proof (intro allI impI)
    fix j assume j: "j < length (bitmap cbf)"
    with z have "bitmap cbf' ! j = (if j \<in> set positions then 0 else bitmap ?c ! j)" by simp
    with j show "bitmap cbf' ! j = (if j \<in> set (i # positions) then 0 else bitmap cbf ! j)"
      by (cases "j = i") simp_all
  qed
  ultimately show ?case by blast
qed

lemma RemoveAll_total:
  assumes "wellformed cbf"
  shows "\<exists>cbf'. RemoveAll cbf = Inr cbf' \<and> wellformed cbf' \<and>
           size_cbf cbf' = size_cbf cbf \<and> options cbf' = options cbf \<and>
           currentIndex cbf' = currentIndex cbf \<and>
           bitmap cbf' = replicate (nat (size_cbf cbf)) 0 \<and> timestampMap cbf' = Map.empty"
proof -
  have len: "length (bitmap cbf) = nat (size_cbf cbf)" using assms by (simp add: wellformed_def)
  then have "\<forall>i \<in> set [0..<nat (size_cbf cbf)]. i < length (bitmap cbf)" by simp
  from RemoveAll_loop_total [OF this] obtain c where
    r: "RemoveAll_loop [0..<nat (size_cbf cbf)] cbf = Inr c" and f: "same_frame cbf c"
    and z: "\<forall>j < length (bitmap cbf).
              bitmap c ! j = (if j \<in> set [0..<nat (size_cbf cbf)] then 0 else bitmap cbf ! j)"
    by blast
  have lc: "length (bitmap c) = nat (size_cbf cbf)" using f len by (simp add: same_frame_def)
  have b: "bitmap c = replicate (nat (size_cbf cbf)) 0"
    using z len lc by (simp add: list_eq_iff_nth_eq)
  let ?c = "c\<lparr>timestampMap := Map.empty\<rparr>"
  have "RemoveAll cbf = Inr ?c" using r by (simp add: RemoveAll_def)
  moreover have "wellformed ?c" using assms f by (simp add: wellformed_def same_frame_def)
  ultimately show ?thesis using f b by (simp add: same_frame_def)
qed

lemma K_positive: "0 < K"
  by (simp add: K_def)

lemma Check_all_zero:
  assumes "wellformed cbf" and "bitmap cbf = replicate (nat (size_cbf cbf)) 0"
  shows "Check now key cbf = Inr (False, cbf)"
proof -
  let ?p = "unat (hash key 0) mod nat (size_cbf cbf)"
  have "?p < nat (size_cbf cbf)" using assms(1) by (simp add: wellformed_def)
  then have "bitmap cbf ! ?p = 0" using assms(2) by simp
  moreover have "0 \<in> set [0..<K]" using K_positive by simp
  ultimately have "\<not> (\<forall>i \<in> set [0..<K]. bitmap cbf ! (unat (hash key i) mod nat (size_cbf cbf)) \<noteq> 0)"
    by blast
  with Check_loop_characterised [OF assms(1), of key "[0..<K]"]
  have "Check_loop key [0..<K] cbf = Inr False" by simp
  then show ?thesis by (simp add: Check_def Check_read_def)
qed

lemmas scenario_simps = newCountingBloomFilter_def NewCountingBloomFilter_def loadOptions_def
  WithExpiryDuration_def WithOptions_def single_counter_filter_def
  and_then_def counters_def found_def after_def timestamp_of_def
  Add_def Remove_def Check_def Check_read_def RemoveAll_def trials_K slot_in_range
  NO_EXPIRATION_def EXPIRY_DURATION_def LAZY_EXPIRATION_def RESET_EVERY_PERIOD_def
  DefaultCleanIntervalTime_def maxAlloc_def

lemma single_counter_filter_wellformed: "wellformed (single_counter_filter c strategy ts)"
  by (simp add: wellformed_def single_counter_filter_def)

lemma cleanupWithLazy_loop_total:
  assumes "size_cbf cbf = int (length (bitmap cbf))" and "0 \<le> startIndex"
  shows "\<exists>stop cbf'. cleanupWithLazy_loop n startIndex cbf = Inr (stop, cbf') \<and>
           same_frame cbf cbf' \<and> startIndex \<le> stop \<and>
           (\<forall>j < length (bitmap cbf). unat (bitmap cbf' ! j) \<le> unat (bitmap cbf ! j))"
  using assms
proof (induction n arbitrary: startIndex cbf)
  case 0
  show ?case by (simp add: same_frame_refl)
next
  case (Suc n)
  show ?case
  proof (cases "startIndex < size_cbf cbf")
    case False
    then show ?thesis by (simp add: same_frame_refl)
  next
    case True
    let ?k = "nat startIndex"
    let ?c = "if bitmap cbf ! ?k > 0
              then cbf\<lparr>bitmap := (bitmap cbf)[?k := bitmap cbf ! ?k - 1]\<rparr> else cbf"
    have k: "?k < length (bitmap cbf)" using True Suc.prems by simp
    have f: "same_frame cbf ?c" by (simp add: same_frame_def)
    have "size_cbf ?c = int (length (bitmap ?c))" using Suc.prems(1) by simp
    moreover have "0 \<le> startIndex + 1" using Suc.prems(2) by simp
    ultimately obtain stop cbf' where
      r: "cleanupWithLazy_loop n (startIndex + 1) ?c = Inr (stop, cbf')"
      and f': "same_frame ?c cbf'" and s: "startIndex + 1 \<le> stop"
      and d: "\<forall>j < length (bitmap ?c). unat (bitmap cbf' ! j) \<le> unat (bitmap ?c ! j)"
      using Suc.IH by blast
    have step: "\<forall>j < length (bitmap cbf). unat (bitmap ?c ! j) \<le> unat (bitmap cbf ! j)"
    proof (intro allI impI)
      fix j assume j: "j < length (bitmap cbf)"
      show "unat (bitmap ?c ! j) \<le> unat (bitmap cbf ! j)"
      proof (cases "bitmap cbf ! ?k > 0")
        case False
        then show ?thesis by simp
      next
        case True
        then have "unat (bitmap cbf ! ?k - 1) \<le> unat (bitmap cbf ! ?k)"
          by (rule unat_decrement_le)
        with True j show ?thesis by (cases "j = ?k") simp_all
      qed
    qed
    have "\<forall>j < length (bitmap cbf). unat (bitmap cbf' ! j) \<le> unat (bitmap cbf ! j)"
    proof (intro allI impI)
      fix j assume j: "j < length (bitmap cbf)"
      with d have "unat (bitmap cbf' ! j) \<le> unat (bitmap ?c ! j)" by simp
      also from step j have "\<dots> \<le> unat (bitmap cbf ! j)" by blast
      finally show "unat (bitmap cbf' ! j) \<le> unat (bitmap cbf ! j)" .
    qed
    moreover from f f' have "same_frame cbf cbf'" by (rule same_frame_trans)
    moreover have "cleanupWithLazy_loop (Suc n) startIndex cbf = Inr (stop, cbf')"
      using True Suc.prems(2) k r by simp
    moreover have "startIndex \<le> stop" using s by simp
    ultimately show ?thesis by blast
  qed
qed

lemma cleanupWithLazy_tick_total:
  assumes "wellformed cbf"
  shows "\<exists>cbf'. cleanupWithLazy_tick ceil_batch cbf = Inr cbf' \<and> wellformed cbf' \<and>
           options cbf' = options cbf \<and> timestampMap cbf' = timestampMap cbf \<and>
           length (bitmap cbf') = length (bitmap cbf) \<and>
           (\<forall>j < length (bitmap cbf). unat (bitmap cbf' ! j) \<le> unat (bitmap cbf ! j))"
proof -
  let ?n = "nat (if ceil_batch < 1 then 1000 else ceil_batch)"
  have "size_cbf cbf = int (length (bitmap cbf))" and "0 \<le> currentIndex cbf"
    using assms by (simp_all add: wellformed_def)
  from cleanupWithLazy_loop_total [OF this, of ?n] obtain stop c where
    r: "cleanupWithLazy_loop ?n (currentIndex cbf) cbf = Inr (stop, c)"
    and f: "same_frame cbf c" and s: "currentIndex cbf \<le> stop"
    and d: "\<forall>j < length (bitmap cbf). unat (bitmap c ! j) \<le> unat (bitmap cbf ! j)" by blast
  let ?c = "if stop \<ge> size_cbf c then c\<lparr>currentIndex := 0\<rparr> else c\<lparr>currentIndex := stop\<rparr>"
  have "cleanupWithLazy_tick ceil_batch cbf = Inr ?c"
    using r by (simp add: cleanupWithLazy_tick_def Let_def)
  moreover have "wellformed ?c"
    using assms f s by (simp add: wellformed_def same_frame_def)
  moreover have "options ?c = options cbf \<and> timestampMap ?c = timestampMap cbf \<and>
      length (bitmap ?c) = length (bitmap cbf)"
    using f by (simp add: same_frame_def)
  moreover have "\<forall>j < length (bitmap cbf). unat (bitmap ?c ! j) \<le> unat (bitmap cbf ! j)"
    using d by simp
  ultimately show ?thesis by blast
qed

lemma Check_total:
  assumes "wellformed cbf"
  shows "\<exists>b cbf'. Check now item cbf = Inr (b, cbf') \<and> wellformed cbf' \<and>
           options cbf' = options cbf \<and>
           (timestampMap cbf' = timestampMap cbf \<or>
            timestampMap cbf' = (timestampMap cbf)(item := None))"
proof -
  from Check_loop_total [OF assms, of item "[0..<K]"] obtain b where
    l: "Check_loop item [0..<K] cbf = Inr b" by blast
  from Remove_total [OF assms, of item] obtain c where
    r: "Remove item cbf = Inr c" and w: "wellformed c" and o: "options c = options cbf"
    and t: "timestampMap c = (timestampMap cbf)(item := None)" by blast
  show ?thesis
  proof (cases "Check_read now item cbf = Inr Expired")
    case True
    with r have "Check now item cbf = Inr (False, c)" by (simp add: Check_def)
    with w o t show ?thesis by blast
  next
    case False
    with l have "Check now item cbf = Inr (b, cbf)"
      by (cases b) (auto simp: Check_def Check_read_def split: option.splits if_splits)
    with assms show ?thesis by blast
  qed
qed

lemma cleanupWithExpiry_idle:
  assumes "timestampMap cbf = Map.empty"
  shows "cleanupWithExpiry [(clock, order)] 0 cbf = Inr (1, cbf)"
  using assms by (simp add: cleanupWithExpiry_pass_def)

lemma tick_idle:
  assumes "idle_timestamps cbf"
  shows "\<exists>cbf'. tick ceil_batch clock order cbf = Inr cbf' \<and> idle_timestamps cbf'"
proof -
  have w: "wellformed cbf" and e: "ExpiryStrategy (options cbf) \<noteq> EXPIRY_DURATION"
    and t: "timestampMap cbf = Map.empty" using assms by (simp_all add: idle_timestamps_def)
  consider (none) "ExpiryStrategy (options cbf) = NO_EXPIRATION"
    | (lazy) "ExpiryStrategy (options cbf) \<noteq> NO_EXPIRATION"
        "ExpiryStrategy (options cbf) = LAZY_EXPIRATION"
    | (reset) "ExpiryStrategy (options cbf) \<noteq> NO_EXPIRATION"
        "ExpiryStrategy (options cbf) \<noteq> LAZY_EXPIRATION"
        "ExpiryStrategy (options cbf) = RESET_EVERY_PERIOD"
    | (sweep) "ExpiryStrategy (options cbf) \<noteq> NO_EXPIRATION"
        "ExpiryStrategy (options cbf) \<noteq> LAZY_EXPIRATION"
        "ExpiryStrategy (options cbf) \<noteq> RESET_EVERY_PERIOD"
    by blast
  then show ?thesis
  proof cases
    case none
    with assms show ?thesis by (simp add: tick_def)
  next
    case lazy
    from cleanupWithLazy_tick_total [OF w, of ceil_batch] obtain c where
      "cleanupWithLazy_tick ceil_batch cbf = Inr c" "wellformed c"
      "options c = options cbf" "timestampMap c = timestampMap cbf" by blast
    with lazy e t show ?thesis by (simp add: tick_def idle_timestamps_def)
  next
    case reset
    from RemoveAll_total [OF w] obtain c where
      "RemoveAll cbf = Inr c" "wellformed c" "options c = options cbf"
      "timestampMap c = Map.empty" by blast
    with reset e show ?thesis
      by (simp add: tick_def cleanupWithReset_tick_def idle_timestamps_def)
  next
    case sweep
    with assms cleanupWithExpiry_idle [OF t, of clock order] show ?thesis
      by (simp add: tick_def)
  qed
qed

lemma apply_operation_idle:
  assumes "idle_timestamps cbf"
  shows "\<exists>cbf'. apply_operation operation cbf = Inr cbf' \<and> idle_timestamps cbf'"
proof -
  have w: "wellformed cbf" and e: "ExpiryStrategy (options cbf) \<noteq> EXPIRY_DURATION"
    and t: "timestampMap cbf = Map.empty" using assms by (simp_all add: idle_timestamps_def)
  show ?thesis
  proof (cases operation)
    case (OpAdd now item)
    from Add_total [OF w, of now item] obtain c where
      "Add now item cbf = Inr c" "wellformed c" "options c = options cbf"
      "timestampMap c = (if ExpiryStrategy (options cbf) = EXPIRY_DURATION
              then (timestampMap cbf)(item \<mapsto> now) else timestampMap cbf)" by blast
    with OpAdd e t show ?thesis by (simp add: idle_timestamps_def)
  next
    case (OpCheck now item)
    from Check_total [OF w, of now item] obtain b c where
      "Check now item cbf = Inr (b, c)" "wellformed c" "options c = options cbf"
      "timestampMap c = timestampMap cbf \<or> timestampMap c = (timestampMap cbf)(item := None)"
      by blast
    with OpCheck e t show ?thesis by (auto simp: idle_timestamps_def)
  next
    case (OpRemove item)
    from Remove_total [OF w, of item] obtain c where
      "Remove item cbf = Inr c" "wellformed c" "options c = options cbf"
      "timestampMap c = (timestampMap cbf)(item := None)" by blast
    with OpRemove e t show ?thesis by (simp add: idle_timestamps_def)
  next
    case OpRemoveAll
    from RemoveAll_total [OF w] obtain c where
      "RemoveAll cbf = Inr c" "wellformed c" "options c = options cbf"
      "timestampMap c = Map.empty" by blast
    with OpRemoveAll e show ?thesis by (simp add: idle_timestamps_def)
  next
    case (OpTick ceil_batch clock order)
    with tick_idle [OF assms, of ceil_batch clock order] show ?thesis by simp
  qed
qed

lemma run_idle:
  "idle_timestamps cbf \<Longrightarrow> \<exists>cbf'. run operations cbf = Inr cbf' \<and> idle_timestamps cbf'"
proof (induction operations arbitrary: cbf)
  case Nil
  then show ?case by simp
next
  case (Cons operation operations)
  from apply_operation_idle [OF Cons.prems, of operation] obtain c where
    a: "apply_operation operation cbf = Inr c" and i: "idle_timestamps c" by blast
  from Cons.IH [OF i] obtain cbf' where
    "run operations c = Inr cbf'" "idle_timestamps cbf'" by blast
  with a show ?case by simp
qed

lemma newCountingBloomFilter_returns:
  assumes "0 \<le> sz" and "sz \<le> maxAlloc"
    and "\<forall>p. opts = Some p \<longrightarrow> ExpiryStrategy p = NO_EXPIRATION \<or> 0 < Duration p"
  shows "\<exists>cbf. newCountingBloomFilter sz opts = Inr cbf"
  using assms by (cases opts) (auto simp: newCountingBloomFilter_def Let_def)

lemma newCountingBloomFilter_shape:
  assumes "newCountingBloomFilter sz opts = Inr cbf"
  shows "0 \<le> sz \<and> sz \<le> maxAlloc \<and> bitmap cbf = replicate (nat sz) 0 \<and> size_cbf cbf = sz \<and>
         currentIndex cbf = 0 \<and> timestampMap cbf = Map.empty \<and>
         options cbf = (case opts of
                          None \<Rightarrow> \<lparr>ExpiryStrategy = NO_EXPIRATION, Duration = DefaultCleanIntervalTime\<rparr>
                        | Some p \<Rightarrow> p)"
  using assms by (auto simp: newCountingBloomFilter_def Let_def split: if_splits)

lemma newCountingBloomFilter_idle:
  assumes "newCountingBloomFilter sz opts = Inr cbf" and "0 < sz"
    and "ExpiryStrategy (options cbf) \<noteq> EXPIRY_DURATION"
  shows "idle_timestamps cbf"
proof -
  from newCountingBloomFilter_shape [OF assms(1)]
  have "sz \<le> maxAlloc" and "bitmap cbf = replicate (nat sz) 0" and "size_cbf cbf = sz"
    and "currentIndex cbf = 0" and "timestampMap cbf = Map.empty" by simp_all
  moreover from \<open>sz \<le> maxAlloc\<close> have "sz < 2 ^ 63" by (simp add: maxAlloc_def)
  ultimately show ?thesis using assms(2,3) by (simp add: idle_timestamps_def wellformed_def)
qed

lemma replicate_numeral_unfold: "replicate (numeral k) x = x # replicate (pred_numeral k) x"
  by (simp add: numeral_eq_Suc)

lemma Check_concurrent_alone: "Check_concurrent now item [] cbf = Check now item cbf"
  by (simp add: Check_concurrent_def Check_def split: sum.splits check_outcome.splits)

lemma sweep_filter_eq:
  "sweep_filter = Inr (single_counter_filter 252 3 (map_of (map (\<lambda>k. (k, 0)) (rev sweep_keys))))"
  by (simp add: sweep_filter_def sweep_keys_def scenario_simps)

lemma stale_filter_eq: "stale_filter = Inr (single_counter_filter 12 3 [''a'' \<mapsto> 0])"
  by (simp add: stale_filter_def scenario_simps)

subsection \<open>RemoveAll\<close>

text \<open>
  C4. On a well-formed filter \<open>RemoveAll\<close> returns; afterwards every counter is 0, the
  timestamp map is empty, and \<open>Check\<close> returns false for every key at every time, leaving
  the filter as it is.
\<close>

theorem RemoveAll_clears_counters_and_timestamps:
  assumes "wellformed cbf"
  shows "\<exists>cbf'. RemoveAll cbf = Inr cbf' \<and>
           length (bitmap cbf') = length (bitmap cbf) \<and>
           (\<forall>j < length (bitmap cbf'). bitmap cbf' ! j = 0) \<and>
           timestampMap cbf' = Map.empty \<and>
           (\<forall>now key. Check now key cbf' = Inr (False, cbf'))"
proof -
  from RemoveAll_total [OF assms] obtain cbf' where
    r: "RemoveAll cbf = Inr cbf'" and w: "wellformed cbf'"
    and s: "size_cbf cbf' = size_cbf cbf"
    and b: "bitmap cbf' = replicate (nat (size_cbf cbf)) 0"
    and t: "timestampMap cbf' = Map.empty" by blast
  have "length (bitmap cbf') = length (bitmap cbf)" using b assms by (simp add: wellformed_def)
  moreover have "\<forall>j < length (bitmap cbf'). bitmap cbf' ! j = 0" using b by simp
  moreover have "\<forall>now key. Check now key cbf' = Inr (False, cbf')"
    using w b s by (simp add: Check_all_zero)
  ultimately show ?thesis using r t by blast
qed

theorem RemoveAll_clears_counters_and_timestamps_witness:
  "wellformed (single_counter_filter 12 3 [''a'' \<mapsto> 0]) \<and>
   counters (RemoveAll (single_counter_filter 12 3 [''a'' \<mapsto> 0])) = Inr [0] \<and>
   timestamp_of ''a'' (RemoveAll (single_counter_filter 12 3 [''a'' \<mapsto> 0])) = Inr None \<and>
   found (and_then (RemoveAll (single_counter_filter 12 3 [''a'' \<mapsto> 0])) (Check 5 ''a'')) = Inr False"
  using RemoveAll_clears_counters_and_timestamps [of "single_counter_filter 12 3 [''a'' \<mapsto> 0]"]
  by (simp add: single_counter_filter_wellformed) (simp add: scenario_simps)

subsection \<open>The hash scheme\<close>

text \<open>
  C8. For a filter whose size is positive (and fits Go's \<open>int\<close>) and whose slice has that
  many counters, the position used by \<open>Add\<close>, \<open>Check\<close> and \<open>Remove\<close> for a key and a
  trial is the FNV-1a hash of the key's bytes plus the trial, modulo \<open>2 ^ 64\<close>, modulo the
  size: a function of key, trial and size alone, and below the size.
\<close>

theorem index_is_fnv1a_plus_trial_mod_size:
  assumes "0 < size_cbf cbf" and "size_cbf cbf < 2 ^ 63"
    and "length (bitmap cbf) = nat (size_cbf cbf)"
  shows "slot cbf key trial = Inr (index_spec key trial (nat (size_cbf cbf))) \<and>
         index_spec key trial (nat (size_cbf cbf)) < nat (size_cbf cbf)"
proof
  show "slot cbf key trial = Inr (index_spec key trial (nat (size_cbf cbf)))"
    using assms by (rule slot_index_spec)
  show "index_spec key trial (nat (size_cbf cbf)) < nat (size_cbf cbf)"
    using assms(1) by (simp add: index_spec_def)
qed

theorem index_is_fnv1a_plus_trial_mod_size_witness:
  "slot \<lparr>bitmap = replicate 16 0, size_cbf = 16,
         options = \<lparr>ExpiryStrategy = 0, Duration = 60\<rparr>,
         currentIndex = 0, timestampMap = Map.empty\<rparr> ''a'' 3 = Inr 15 \<and>
   index_spec ''a'' 3 16 = 15"
  using index_is_fnv1a_plus_trial_mod_size
    [of "\<lparr>bitmap = replicate 16 0, size_cbf = 16,
         options = \<lparr>ExpiryStrategy = 0, Duration = 60\<rparr>,
         currentIndex = 0, timestampMap = Map.empty\<rparr>" "''a''" 3]
  by (simp add: index_spec_def)

subsection \<open>Check without the time-based policy\<close>

text \<open>
  C10. When the strategy is not \<open>EXPIRY_DURATION\<close>, \<open>Check\<close> returns the filter it was
  given, with every field as before; its result does not depend on the time, and on a
  well-formed filter it is the boolean "all \<open>K\<close> addressed counters are non-zero".
\<close>

theorem Check_is_pure_without_expiry_duration:
  assumes "ExpiryStrategy (options cbf) \<noteq> EXPIRY_DURATION"
  shows "(\<forall>b cbf'. Check now item cbf = Inr (b, cbf') \<longrightarrow> cbf' = cbf) \<and>
         Check now item cbf = Check now' item cbf \<and>
         (wellformed cbf \<longrightarrow>
            Check now item cbf =
              Inr ((\<forall>i < K. bitmap cbf ! index_spec item i (nat (size_cbf cbf)) \<noteq> 0), cbf))"
proof (intro conjI allI impI)
  fix b cbf'
  assume "Check now item cbf = Inr (b, cbf')"
  with Check_read_not_Expired [OF assms, of now item] show "cbf' = cbf"
    by (auto simp: Check_def split: sum.splits check_outcome.splits)
next
  from Check_read_not_Expired [OF assms, of now item]
    Check_read_not_Expired [OF assms, of now' item]
    Check_read_time_independent [OF assms, of now item now']
  show "Check now item cbf = Check now' item cbf"
    by (simp add: Check_def split: sum.splits check_outcome.splits)
next
  assume wf: "wellformed cbf"
  let ?P = "\<forall>i < K. bitmap cbf ! index_spec item i (nat (size_cbf cbf)) \<noteq> 0"
  have "Check_loop item [0..<K] cbf =
          Inr (\<forall>i \<in> set [0..<K]. bitmap cbf ! (unat (hash item i) mod nat (size_cbf cbf)) \<noteq> 0)"
    using wf by (rule Check_loop_characterised)
  then have loop: "Check_loop item [0..<K] cbf = Inr ?P"
    by (auto simp add: index_spec_def unat_hash)
  show "Check now item cbf = Inr (?P, cbf)"
  proof (cases ?P)
    case True
    with loop have "Check_loop item [0..<K] cbf = Inr True" by simp
    with assms have "Check_read now item cbf = Inr Present" by (simp add: Check_read_def)
    with True show ?thesis by (simp add: Check_def)
  next
    case False
    with loop have "Check_loop item [0..<K] cbf = Inr False" by simp
    then have "Check_read now item cbf = Inr Absent" by (simp add: Check_read_def)
    with False show ?thesis by (simp add: Check_def)
  qed
qed

theorem Check_is_pure_without_expiry_duration_witness:
  "ExpiryStrategy (options (single_counter_filter 12 1 Map.empty)) \<noteq> EXPIRY_DURATION \<and>
   wellformed (single_counter_filter 12 1 Map.empty) \<and>
   Check 5 ''a'' (single_counter_filter 12 1 Map.empty)
     = Inr (True, single_counter_filter 12 1 Map.empty) \<and>
   Check 5 ''a'' (single_counter_filter 12 1 Map.empty)
     = Check 99 ''a'' (single_counter_filter 12 1 Map.empty)"
  using Check_is_pure_without_expiry_duration [of "single_counter_filter 12 1 Map.empty" 5 "''a''" 99]
  by (simp add: single_counter_filter_wellformed) (simp add: scenario_simps)

subsection \<open>Decrements\<close>

text \<open>
  C3. On a well-formed filter \<open>Remove\<close> and one tick of the lazy sweep return, keep the
  length of the counter array, and leave no counter above its old value (read as an
  unsigned number, so no decrement wraps below 0): a counter at 0 stays at 0. \<open>Remove\<close> of
  a key whose \<open>K\<close> addressed counters are all 0 leaves the counter array as it is.
\<close>

theorem decrements_stop_at_zero:
  assumes "wellformed cbf"
  shows "(\<exists>cbf'. Remove item cbf = Inr cbf' \<and>
            length (bitmap cbf') = length (bitmap cbf) \<and>
            (\<forall>j < length (bitmap cbf).
               unat (bitmap cbf' ! j) \<le> unat (bitmap cbf ! j) \<and>
               (bitmap cbf ! j = 0 \<longrightarrow> bitmap cbf' ! j = 0)) \<and>
            ((\<forall>i < K. bitmap cbf ! index_spec item i (nat (size_cbf cbf)) = 0)
               \<longrightarrow> bitmap cbf' = bitmap cbf)) \<and>
         (\<exists>cbf'. cleanupWithLazy_tick ceil_batch cbf = Inr cbf' \<and>
            length (bitmap cbf') = length (bitmap cbf) \<and>
            (\<forall>j < length (bitmap cbf).
               unat (bitmap cbf' ! j) \<le> unat (bitmap cbf ! j) \<and>
               (bitmap cbf ! j = 0 \<longrightarrow> bitmap cbf' ! j = 0)))"
proof
  from Remove_total [OF assms, of item] obtain cbf' where
    r: "Remove item cbf = Inr cbf'" and l: "length (bitmap cbf') = length (bitmap cbf)"
    and d: "\<forall>j < length (bitmap cbf). unat (bitmap cbf' ! j) \<le> unat (bitmap cbf ! j)"
    by blast
  have z: "\<forall>j < length (bitmap cbf).
      unat (bitmap cbf' ! j) \<le> unat (bitmap cbf ! j) \<and>
      (bitmap cbf ! j = 0 \<longrightarrow> bitmap cbf' ! j = 0)"
    using d unat_le_zero_preserved by blast
  have n: "(\<forall>i < K. bitmap cbf ! index_spec item i (nat (size_cbf cbf)) = 0)
      \<longrightarrow> bitmap cbf' = bitmap cbf"
  proof
    assume "\<forall>i < K. bitmap cbf ! index_spec item i (nat (size_cbf cbf)) = 0"
    then have "\<forall>i \<in> set [0..<K]. bitmap cbf ! (unat (hash item i) mod nat (size_cbf cbf)) = 0"
      by (simp add: index_spec_def unat_hash)
    with assms have "Remove_loop item [0..<K] cbf = Inr cbf" by (rule Remove_loop_zero_noop)
    with r show "bitmap cbf' = bitmap cbf" by (auto simp: Remove_def)
  qed
  from r l z n show "\<exists>cbf'. Remove item cbf = Inr cbf' \<and>
            length (bitmap cbf') = length (bitmap cbf) \<and>
            (\<forall>j < length (bitmap cbf).
               unat (bitmap cbf' ! j) \<le> unat (bitmap cbf ! j) \<and>
               (bitmap cbf ! j = 0 \<longrightarrow> bitmap cbf' ! j = 0)) \<and>
            ((\<forall>i < K. bitmap cbf ! index_spec item i (nat (size_cbf cbf)) = 0)
               \<longrightarrow> bitmap cbf' = bitmap cbf)" by blast
next
  from cleanupWithLazy_tick_total [OF assms, of ceil_batch] obtain cbf' where
    r: "cleanupWithLazy_tick ceil_batch cbf = Inr cbf'"
    and l: "length (bitmap cbf') = length (bitmap cbf)"
    and d: "\<forall>j < length (bitmap cbf). unat (bitmap cbf' ! j) \<le> unat (bitmap cbf ! j)"
    by blast
  have "\<forall>j < length (bitmap cbf).
      unat (bitmap cbf' ! j) \<le> unat (bitmap cbf ! j) \<and>
      (bitmap cbf ! j = 0 \<longrightarrow> bitmap cbf' ! j = 0)"
    using d unat_le_zero_preserved by blast
  with r l show "\<exists>cbf'. cleanupWithLazy_tick ceil_batch cbf = Inr cbf' \<and>
            length (bitmap cbf') = length (bitmap cbf) \<and>
            (\<forall>j < length (bitmap cbf).
               unat (bitmap cbf' ! j) \<le> unat (bitmap cbf ! j) \<and>
               (bitmap cbf ! j = 0 \<longrightarrow> bitmap cbf' ! j = 0))" by blast
qed

theorem decrements_stop_at_zero_witness:
  "wellformed (single_counter_filter 0 1 Map.empty) \<and>
   counters (Remove ''never added'' (single_counter_filter 0 1 Map.empty)) = Inr [0] \<and>
   counters (cleanupWithLazy_tick 1 (single_counter_filter 0 1 Map.empty)) = Inr [0] \<and>
   counters (Remove ''a'' (single_counter_filter 5 1 Map.empty)) = Inr [0] \<and>
   counters (cleanupWithLazy_tick 1 (single_counter_filter 5 1 Map.empty)) = Inr [4]"
  using decrements_stop_at_zero [of "single_counter_filter 0 1 Map.empty" "''never added''" 1]
  by (simp add: single_counter_filter_wellformed)
     (simp add: scenario_simps cleanupWithLazy_tick_def)

subsection \<open>The timestamp map without the time-based policy\<close>

text \<open>
  C9. Every filter that the constructor returns for a positive size and whose strategy is
  not \<open>EXPIRY_DURATION\<close> runs every sequence of \<open>Add\<close>, \<open>Check\<close>, \<open>Remove\<close>,
  \<open>RemoveAll\<close> and timer ticks to the end, and its timestamp map is empty afterwards.
\<close>

theorem timestamp_index_empty_without_expiry_duration:
  assumes "newCountingBloomFilter sz opts = Inr cbf" and "0 < sz"
    and "ExpiryStrategy (options cbf) \<noteq> EXPIRY_DURATION"
  shows "\<exists>cbf'. run operations cbf = Inr cbf' \<and> timestampMap cbf' = Map.empty"
proof -
  have "idle_timestamps cbf" using assms by (rule newCountingBloomFilter_idle)
  from run_idle [OF this, of operations] obtain cbf' where
    "run operations cbf = Inr cbf'" "idle_timestamps cbf'" by blast
  then show ?thesis by (auto simp: idle_timestamps_def)
qed

theorem timestamp_index_empty_without_expiry_duration_witness:
  "newCountingBloomFilter 1 (Some \<lparr>ExpiryStrategy = LAZY_EXPIRATION, Duration = 1000\<rparr>)
     = Inr (single_counter_filter 0 LAZY_EXPIRATION Map.empty) \<and>
   (0::int) < 1 \<and>
   ExpiryStrategy (options (single_counter_filter 0 LAZY_EXPIRATION Map.empty)) \<noteq> EXPIRY_DURATION \<and>
   timestamp_of ''a''
     (run [OpAdd 0 ''a'', OpCheck 1 ''a'', OpRemove ''b'', OpAdd 2 ''b'', OpRemoveAll, OpAdd 3 ''a'']
        (single_counter_filter 0 LAZY_EXPIRATION Map.empty))
     = Inr None"
proof -
  have c: "newCountingBloomFilter 1 (Some \<lparr>ExpiryStrategy = LAZY_EXPIRATION, Duration = 1000\<rparr>)
             = Inr (single_counter_filter 0 LAZY_EXPIRATION Map.empty)"
    by (simp add: scenario_simps)
  have s: "ExpiryStrategy (options (single_counter_filter 0 LAZY_EXPIRATION Map.empty))
             \<noteq> EXPIRY_DURATION"
    by (simp add: scenario_simps)
  from timestamp_index_empty_without_expiry_duration [OF c _ s,
      of "[OpAdd 0 ''a'', OpCheck 1 ''a'', OpRemove ''b'', OpAdd 2 ''b'', OpRemoveAll, OpAdd 3 ''a'']"]
  have "timestamp_of ''a''
     (run [OpAdd 0 ''a'', OpCheck 1 ''a'', OpRemove ''b'', OpAdd 2 ''b'', OpRemoveAll, OpAdd 3 ''a'']
        (single_counter_filter 0 LAZY_EXPIRATION Map.empty)) = Inr None"
    by (auto simp: timestamp_of_def)
  with c s show ?thesis by simp
qed

subsection \<open>Overflow of a counter\<close>

text \<open>
  Where no counter overflows, \<open>Add\<close> is followed by a positive \<open>Check\<close>: if each of the
  \<open>K\<close> counters that the key addresses is at most 243 before the \<open>Add\<close>, and under the
  time-based policy the \<open>Check\<close> comes no later than the duration after the \<open>Add\<close>, then
  \<open>Check\<close> returns true and leaves the filter as it is.
\<close>

lemma unat_increment_below_top:
  fixes c :: uint8
  assumes "unat c < 255"
  shows "unat (c + 1) = unat c + 1"
proof -
  have "unat c + unat (1 :: uint8) < 2 ^ LENGTH(8)" using assms by simp
  then have "unat (c + 1) = unat c + unat (1 :: uint8)" by (simp only: unat_add_lem)
  then show ?thesis by simp
qed

lemma Add_loop_counts:
  assumes "wellformed cbf" and "Add_loop item trials cbf = Inr cbf'"
    and "j < length (bitmap cbf)"
    and "unat (bitmap cbf ! j) + length trials < 256"
  shows "unat (bitmap cbf ! j) \<le> unat (bitmap cbf' ! j) \<and>
         unat (bitmap cbf' ! j) \<le> unat (bitmap cbf ! j) + length trials \<and>
         (j \<in> (\<lambda>i. unat (hash item i) mod nat (size_cbf cbf)) ` set trials
            \<longrightarrow> unat (bitmap cbf ! j) < unat (bitmap cbf' ! j))"
  using assms
proof (induction trials arbitrary: cbf)
  case Nil
  then show ?case by simp
next
  case (Cons i trials)
  define p where "p = unat (hash item i) mod nat (size_cbf cbf)"
  define c where "c = cbf\<lparr>bitmap := (bitmap cbf)[p := bitmap cbf ! p + 1]\<rparr>"
  define v where "v = unat (bitmap cbf ! j)"
  define v1 where "v1 = unat (bitmap c ! j)"
  define v' where "v' = unat (bitmap cbf' ! j)"
  have s: "slot cbf item i = Inr p" unfolding p_def using Cons.prems(1) by (rule slot_wellformed)
  have f: "same_frame cbf c" unfolding c_def by (rule same_frame_bitmap_update) simp
  then have w: "wellformed c" using Cons.prems(1) wellformed_same_frame by blast
  have r: "Add_loop item trials c = Inr cbf'" using Cons.prems(2) s by (simp add: c_def)
  have j: "j < length (bitmap c)" using Cons.prems(3) by (simp add: c_def)
  have sz: "size_cbf c = size_cbf cbf" by (simp add: c_def)
  have bound: "v + Suc (length trials) < 256" using Cons.prems(4) by (simp add: v_def)
  have eqp: "v1 = v + 1" if "j = p"
  proof -
    have "unat (bitmap cbf ! p) < 255" using bound that by (simp add: v_def)
    then have "unat (bitmap cbf ! p + 1) = unat (bitmap cbf ! p) + 1"
      by (rule unat_increment_below_top)
    moreover have "bitmap c ! p = bitmap cbf ! p + 1"
      using Cons.prems(3) that by (simp add: c_def)
    ultimately show ?thesis using that by (simp add: v1_def v_def)
  qed
  have nep: "v1 = v" if "j \<noteq> p"
    using that by (simp add: v1_def v_def c_def)
  have mono: "v \<le> v1" and step: "v1 \<le> v + 1"
    using eqp nep by (cases "j = p"; simp)+
  have "unat (bitmap c ! j) + length trials < 256"
    using step bound by (simp add: v1_def)
  from Cons.IH [OF w r j this]
  have ih1: "v1 \<le> v'" and ih2: "v' \<le> v1 + length trials"
    and ih3: "j \<in> (\<lambda>i. unat (hash item i) mod nat (size_cbf cbf)) ` set trials \<Longrightarrow> v1 < v'"
    by (simp_all add: sz v1_def v'_def)
  have "v \<le> v'" using mono ih1 by simp
  moreover have "v' \<le> v + length (i # trials)" using ih2 step by simp
  moreover have "v < v'"
    if "j \<in> (\<lambda>i. unat (hash item i) mod nat (size_cbf cbf)) ` set (i # trials)"
  proof -
    from that consider "j = p"
      | "j \<in> (\<lambda>i. unat (hash item i) mod nat (size_cbf cbf)) ` set trials"
      by (auto simp: p_def)
    then show ?thesis
    proof cases
      case 1
      then have "v1 = v + 1" by (rule eqp)
      with ih1 show ?thesis by simp
    next
      case 2
      then have "v1 < v'" by (rule ih3)
      with mono show ?thesis by simp
    qed
  qed
  ultimately show ?case by (simp add: v_def v'_def)
qed

lemma Add_then_Check_without_overflow:
  assumes "wellformed cbf"
    and "\<forall>i < K. unat (bitmap cbf ! index_spec item i (nat (size_cbf cbf))) + K < 256"
    and "ExpiryStrategy (options cbf) = EXPIRY_DURATION \<longrightarrow> now' - now \<le> Duration (options cbf)"
  shows "\<exists>cbf'. Add now item cbf = Inr cbf' \<and> Check now' item cbf' = Inr (True, cbf')"
proof -
  let ?pos = "\<lambda>i. unat (hash item i) mod nat (size_cbf cbf)"
  from Add_loop_total [OF assms(1), of item "[0..<K]"] obtain c where
    r: "Add_loop item [0..<K] cbf = Inr c" and f: "same_frame cbf c" by blast
  have w: "wellformed c" using assms(1) f by (rule wellformed_same_frame)
  have sz: "size_cbf c = size_cbf cbf" using f by (simp add: same_frame_def)
  have nz: "\<forall>i \<in> set [0..<K]. bitmap c ! ?pos i \<noteq> 0"
  proof
    fix i assume "i \<in> set [0..<K]"
    then have i: "i < K" by simp
    have p: "?pos i < length (bitmap cbf)" using assms(1) by (simp add: wellformed_def)
    have "unat (bitmap cbf ! ?pos i) + length [0..<K] < 256"
      using assms(2) i by (simp add: index_spec_def unat_hash)
    from Add_loop_counts [OF assms(1) r p this] \<open>i \<in> set [0..<K]\<close>
    have "unat (bitmap cbf ! ?pos i) < unat (bitmap c ! ?pos i)" by blast
    then have "unat (bitmap c ! ?pos i) \<noteq> 0" by simp
    then show "bitmap c ! ?pos i \<noteq> 0" by (simp add: unat_eq_zero)
  qed
  show ?thesis
  proof (cases "ExpiryStrategy (options cbf) = EXPIRY_DURATION")
    case True
    let ?c = "c\<lparr>timestampMap := (timestampMap c)(item \<mapsto> now)\<rparr>"
    have a: "Add now item cbf = Inr ?c" using r f True by (simp add: Add_def same_frame_def)
    have w': "wellformed ?c" using w by (simp add: wellformed_def)
    have "Check_loop item [0..<K] ?c =
        Inr (\<forall>i \<in> set [0..<K]. bitmap ?c ! (unat (hash item i) mod nat (size_cbf ?c)) \<noteq> 0)"
      using w' by (rule Check_loop_characterised)
    with nz sz have "Check_loop item [0..<K] ?c = Inr True" by simp
    moreover have "ExpiryStrategy (options ?c) = EXPIRY_DURATION" "Duration (options ?c) = Duration (options cbf)"
      using True f by (simp_all add: same_frame_def)
    ultimately have "Check_read now' item ?c = Inr Present"
      using assms(3) True by (simp add: Check_read_def)
    then have "Check now' item ?c = Inr (True, ?c)" by (simp add: Check_def)
    with a show ?thesis by blast
  next
    case False
    have a: "Add now item cbf = Inr c" using r f False by (simp add: Add_def same_frame_def)
    have "Check_loop item [0..<K] c =
        Inr (\<forall>i \<in> set [0..<K]. bitmap c ! (unat (hash item i) mod nat (size_cbf c)) \<noteq> 0)"
      using w by (rule Check_loop_characterised)
    with nz sz have "Check_loop item [0..<K] c = Inr True" by simp
    moreover have "ExpiryStrategy (options c) \<noteq> EXPIRY_DURATION"
      using False f by (simp add: same_frame_def)
    ultimately have "Check_read now' item c = Inr Present" by (simp add: Check_read_def)
    then have "Check now' item c = Inr (True, c)" by (simp add: Check_def)
    with a show ?thesis by blast
  qed
qed

text \<open>
  C1, at an input where it fails. On a filter of size 1 with no expiry, 63 calls of
  \<open>Add\<close> for one key and one call of \<open>Add\<close> for the key \<open>a\<close> increment the only counter
  768 times, which leaves it at 0; \<open>Check\<close> for \<open>a\<close> right after its \<open>Add\<close> returns
  false.
\<close>

theorem Add_after_overflow_is_not_found:
  "found (and_then
            (and_then (NewCountingBloomFilter 1 [])
               (run (replicate 63 (OpAdd 0 ''b'') @ [OpAdd 0 ''a''])))
            (Check 0 ''a'')) = Inr False"
  by (simp add: scenario_simps replicate_numeral_unfold)

text \<open>
  C2, at an input where it fails. On a filter of size 1 the counter holds 252 after 21
  calls of \<open>Add\<close> and 8 after the next one, not 255; and one increment of a counter at 255
  leaves it at 0.
\<close>

theorem Add_wraps_counter_to_zero:
  "counters (and_then (NewCountingBloomFilter 1 []) (run (replicate 21 (OpAdd 0 ''a'')))) = Inr [252] \<and>
   counters (and_then (NewCountingBloomFilter 1 []) (run (replicate 22 (OpAdd 0 ''a'')))) = Inr [8] \<and>
   counters (Add_loop ''a'' [0] (single_counter_filter 255 0 Map.empty)) = Inr [0]"
  by (simp add: scenario_simps replicate_numeral_unfold)

subsection \<open>The timestamp sweep\<close>

text \<open>
  C5, at an input where it fails. With 21 entries in the timestamp map, none of them
  expired, the pass of one tick visits 20 of them and evicts all 20, a ratio above 25%. The
  loop makes one pass for that tick: the key \<open>u\<close> keeps its timestamp and its counts,
  although a further pass on that filter evicts it.
\<close>

theorem sweep_makes_one_pass_per_tick:
  "count_of (and_then sweep_filter (cleanupWithExpiry_pass (steady_clock 10) sweep_keys)) = Inr 20 \<and>
   count_of (and_then sweep_filter (cleanupWithExpiry [(steady_clock 10, sweep_keys)] 0)) = Inr 1 \<and>
   snapshot ''u'' (after (and_then sweep_filter (cleanupWithExpiry [(steady_clock 10, sweep_keys)] 0)))
     = Inr ([12], Some 0) \<and>
   snapshot ''u'' (after (cleanupWithExpiry_pass (steady_clock 10) sweep_keys
                     (single_counter_filter 12 3 [''u'' \<mapsto> 0])))
     = Inr ([0], None)"
  by (simp add: sweep_filter_eq sweep_keys_def scenario_simps cleanupWithExpiry_pass_def steady_clock_def
      count_of_def snapshot_def totalCount_def)

subsection \<open>Check and a concurrent Add\<close>

text \<open>
  C6, at an input where it fails. The key \<open>a\<close> was added at time 0 with a duration of
  1000. A \<open>Check\<close> at time 2000 finds it expired in its first critical section; an
  \<open>Add\<close> of \<open>a\<close> at time 2001 takes the lock before the removal does. The removal then
  deletes the timestamp 2001 that the \<open>Add\<close> wrote. In both orders in which the two
  calls can run one after the other, the timestamp 2001 is there at the end.
\<close>

theorem Check_removal_clobbers_concurrent_Add:
  "and_then stale_filter (Check_read 2000 ''a'') = Inr Expired \<and>
   snapshot ''a'' (after (and_then stale_filter (Check_concurrent 2000 ''a'' [OpAdd 2001 ''a''])))
     = Inr ([12], None) \<and>
   snapshot ''a'' (and_then (after (and_then stale_filter (Check 2000 ''a''))) (Add 2001 ''a''))
     = Inr ([12], Some 2001) \<and>
   snapshot ''a'' (after (and_then (and_then stale_filter (Add 2001 ''a'')) (Check 2002 ''a'')))
     = Inr ([24], Some 2001)"
  by (simp add: stale_filter_eq Check_concurrent_def scenario_simps snapshot_def)

subsection \<open>Construction with a size that is not positive\<close>

text \<open>
  C7 as stated fails at size 0: the constructor returns a filter with no counters, and
  \<open>Add\<close>, \<open>Check\<close> and \<open>Remove\<close> on it panic on the remainder by zero.
\<close>

theorem size_zero_is_constructed_and_panics_later:
  "counters (NewCountingBloomFilter 0 []) = Inr [] \<and>
   and_then (NewCountingBloomFilter 0 []) (Add 0 ''a'') = Inl DivideByZero \<and>
   and_then (NewCountingBloomFilter 0 []) (Check 0 ''a'') = Inl DivideByZero \<and>
   and_then (NewCountingBloomFilter 0 []) (Remove ''a'') = Inl DivideByZero"
  by (simp add: scenario_simps slot_def)

text \<open>
  C7, amended. Construction with a negative size panics in the allocation of the counter
  array. Construction with size 0 is not guarded: every filter that the constructor returns
  for it has an empty counter array, and \<open>Add\<close>, \<open>Check\<close> and \<open>Remove\<close> on it panic
  with a division by zero. The internal constructor returns one unless the ticker panics on
  a duration that is not positive; the public constructor always returns one.
\<close>

theorem construction_with_nonpositive_size:
  "(sz < 0 \<longrightarrow>
      newCountingBloomFilter sz opts = Inl MakesliceLenOutOfRange \<and>
      NewCountingBloomFilter sz os = Inl MakesliceLenOutOfRange) \<and>
   (sz = 0 \<longrightarrow>
      (\<forall>cbf. newCountingBloomFilter sz opts = Inr cbf \<or> NewCountingBloomFilter sz os = Inr cbf \<longrightarrow>
         bitmap cbf = [] \<and> size_cbf cbf = 0 \<and>
         Add now item cbf = Inl DivideByZero \<and>
         Check now item cbf = Inl DivideByZero \<and>
         Remove item cbf = Inl DivideByZero) \<and>
      ((\<forall>p. opts = Some p \<longrightarrow> ExpiryStrategy p = NO_EXPIRATION \<or> 0 < Duration p) \<longrightarrow>
         (\<exists>cbf. newCountingBloomFilter sz opts = Inr cbf)) \<and>
      (\<exists>cbf. NewCountingBloomFilter sz os = Inr cbf))"
proof (intro conjI impI allI)
  assume "sz < 0"
  then show "newCountingBloomFilter sz opts = Inl MakesliceLenOutOfRange"
    by (simp add: newCountingBloomFilter_def Let_def)
  from \<open>sz < 0\<close> show "NewCountingBloomFilter sz os = Inl MakesliceLenOutOfRange"
    by (simp add: NewCountingBloomFilter_def newCountingBloomFilter_def Let_def)
next
  fix cbf
  assume z: "sz = 0"
    and r: "newCountingBloomFilter sz opts = Inr cbf \<or> NewCountingBloomFilter sz os = Inr cbf"
  from r obtain o' where "newCountingBloomFilter sz o' = Inr cbf"
    by (auto simp: NewCountingBloomFilter_def Let_def)
  from newCountingBloomFilter_shape [OF this] z
  have b: "bitmap cbf = []" and s: "size_cbf cbf = 0" by simp_all
  from s have d: "slot cbf item i = Inl DivideByZero" for i by (simp add: slot_def)
  show "bitmap cbf = []" by (rule b)
  show "size_cbf cbf = 0" by (rule s)
  show "Add now item cbf = Inl DivideByZero" by (simp add: Add_def trials_K d)
  show "Check now item cbf = Inl DivideByZero" by (simp add: Check_def Check_read_def trials_K d)
  show "Remove item cbf = Inl DivideByZero" by (simp add: Remove_def trials_K d)
next
  assume "sz = 0"
    and "\<forall>p. opts = Some p \<longrightarrow> ExpiryStrategy p = NO_EXPIRATION \<or> 0 < Duration p"
  then show "\<exists>cbf. newCountingBloomFilter sz opts = Inr cbf"
    by (intro newCountingBloomFilter_returns) (simp_all add: maxAlloc_def)
next
  assume "sz = 0"
  then show "\<exists>cbf. NewCountingBloomFilter sz os = Inr cbf"
    unfolding NewCountingBloomFilter_def Let_def
    by (intro newCountingBloomFilter_returns) (simp_all add: maxAlloc_def DefaultCleanIntervalTime_def)
qed

theorem construction_with_nonpositive_size_witness:
  "newCountingBloomFilter (- 1) None = Inl MakesliceLenOutOfRange \<and>
   NewCountingBloomFilter (- 1) [] = Inl MakesliceLenOutOfRange \<and>
   counters (newCountingBloomFilter 0 None) = Inr [] \<and>
   counters (NewCountingBloomFilter 0 []) = Inr [] \<and>
   and_then (newCountingBloomFilter 0 None) (Add 5 ''a'') = Inl DivideByZero \<and>
   and_then (NewCountingBloomFilter 0 []) (Add 5 ''a'') = Inl DivideByZero"
proof -
  note negative = construction_with_nonpositive_size [of "- 1" None "[]" 5 "''a''"]
  note zero = construction_with_nonpositive_size [of 0 None "[]" 5 "''a''"]
  have n: "newCountingBloomFilter (- 1) None = Inl MakesliceLenOutOfRange \<and>
      NewCountingBloomFilter (- 1) [] = Inl MakesliceLenOutOfRange"
    using negative by simp
  have every: "newCountingBloomFilter 0 None = Inr cbf \<or> NewCountingBloomFilter 0 [] = Inr cbf
      \<Longrightarrow> bitmap cbf = [] \<and> Add 5 ''a'' cbf = Inl DivideByZero" for cbf
    using zero by blast
  have "\<forall>p. (None :: Options option) = Some p \<longrightarrow> ExpiryStrategy p = NO_EXPIRATION \<or> 0 < Duration p"
    by simp
  with zero obtain c1 where c1: "newCountingBloomFilter 0 None = Inr c1" by blast
  from zero obtain c2 where c2: "NewCountingBloomFilter 0 [] = Inr c2" by blast
  from every [of c1] c1 have p1: "bitmap c1 = []" "Add 5 ''a'' c1 = Inl DivideByZero" by simp_all
  from every [of c2] c2 have p2: "bitmap c2 = []" "Add 5 ''a'' c2 = Inl DivideByZero" by simp_all
  from n c1 c2 p1 p2 show ?thesis by (simp add: counters_def and_then_def)
qed

end
